theory Spec2Isabelle
  imports Main "HOL-Library.Word"
begin

unbundle bit_operations_syntax

section \<open>Data model\<close>

text \<open>
  The store of the repository: a read-modify-write engine over a pebble database. Callers
  run \<open>Singleton\<close> concurrently, one goroutine runs \<open>FlushLoop\<close>. The Go code is embedded
  as a small-step interleaving semantics: every region that the source runs under one
  mutex (\<open>p.mu\<close> of the Store, \<open>km.l\<close> of a kmutex) is one atomic step, and every
  lock-free operation on shared state (a pebble call, a channel close, a channel
  receive, one write of the mutator) is one atomic step as well.
\<close>

type_synonym bytes = "8 word list"
type_synonym uint64 = "64 word"
type_synonym error = string
type_synonym chan = nat

record DBWrite =
  Key :: bytes
  Value :: bytes

text \<open>
  The pebble database and its batches are an external library. A batch is the list of
  the records staged in it; the database is the list of the records that a sync commit
  has made durable, in commit order. A pebble call may fail: the failure is an input of
  the call (\<open>None\<close> for success).
\<close>

datatype record_op = Put DBWrite | Marker bytes

type_synonym batch = "record_op list"

record pebble =
  synced :: "record_op list"

definition NewBatch :: "pebble \<Rightarrow> batch" where
  "NewBatch d = []"

definition LogData :: "error option \<Rightarrow> bytes \<Rightarrow> batch \<Rightarrow> error + batch" where
  "LogData fault data bt = (case fault of Some e \<Rightarrow> Inl e | None \<Rightarrow> Inr (bt @ [Marker data]))"

definition Commit :: "error option \<Rightarrow> batch \<Rightarrow> pebble \<Rightarrow> error + pebble" where
  "Commit fault bt d =
     (case fault of Some e \<Rightarrow> Inl e | None \<Rightarrow> Inr (d\<lparr>synced := synced d @ bt\<rparr>))"

text \<open>
  \<open>kmutex\<close>: field \<open>s\<close> of the source is \<open>km_s\<close>, the set of the keys of the map; field
  \<open>c\<close> is \<open>km_c\<close>, the goroutines parked in \<open>c.Wait()\<close>. The mutex \<open>l\<close> is the atomicity of
  the steps below.
\<close>

record kmutex =
  km_s :: "uint64 set"
  km_c :: "nat set"

definition newLocker :: kmutex where
  "newLocker = \<lparr>km_s = {}, km_c = {}\<rparr>"

definition locked :: "kmutex \<Rightarrow> uint64 \<Rightarrow> bool" where
  "locked km key = (key \<in> km_s km)"

text \<open>
  One pass of \<open>Lock\<close> under \<open>km.l\<close>, by goroutine \<open>t\<close>: either the loop condition holds and
  the goroutine parks in \<open>c.Wait()\<close> (result \<open>False\<close>), or the key is stored and \<open>Lock\<close>
  returns (result \<open>True\<close>).
\<close>

definition Lock :: "nat \<Rightarrow> uint64 \<Rightarrow> kmutex \<Rightarrow> bool \<times> kmutex" where
  "Lock t key km =
     (if locked km key then (False, km\<lparr>km_c := insert t (km_c km)\<rparr>)
      else (True, km\<lparr>km_s := insert key (km_s km)\<rparr>))"

text \<open>\<open>Unlock\<close>: \<open>delete(km.s, key)\<close>, then \<open>Broadcast\<close> empties the wait list of the condition.\<close>

definition Unlock :: "uint64 \<Rightarrow> kmutex \<Rightarrow> kmutex" where
  "Unlock key km = km\<lparr>km_s := km_s km - {key}, km_c := {}\<rparr>"

text \<open>
  \<open>sync.Mutex\<close> as the flag that it is held: \<open>Lock\<close> on a held mutex waits, \<open>Unlock\<close> of a
  mutex that is not held is a fatal error of the runtime.
\<close>

datatype 'a outcome = Waits | Panics error | Returns 'a

definition mutex_Lock :: "bool \<Rightarrow> bool outcome" where
  "mutex_Lock held = (if held then Waits else Returns True)"

definition mutex_Unlock :: "bool \<Rightarrow> bool outcome" where
  "mutex_Unlock held =
     (if held then Returns False else Panics ''sync: unlock of unlocked mutex'')"

text \<open>
  The method \<open>Unlock\<close> whole, lines 206 to 211, with \<open>km.l\<close> explicit: \<open>l\<close> tells whether
  another goroutine holds \<open>km.l\<close> at the call. \<open>km.l.Lock()\<close>, then the body (\<open>delete\<close> and
  \<open>Broadcast\<close>, neither of which can fail in Go: deleting an absent key is a no-op), then
  the deferred \<open>km.l.Unlock()\<close>. The result is the state of \<open>km.l\<close> and of the mutex.
\<close>

definition Unlock_method :: "bool \<Rightarrow> uint64 \<Rightarrow> kmutex \<Rightarrow> (bool \<times> kmutex) outcome" where
  "Unlock_method l key km =
     (case mutex_Lock l of
        Waits \<Rightarrow> Waits
      | Panics e \<Rightarrow> Panics e
      | Returns l1 \<Rightarrow>
          (let km' = Unlock key km in
           case mutex_Unlock l1 of
             Waits \<Rightarrow> Waits
           | Panics e \<Rightarrow> Panics e
           | Returns l2 \<Rightarrow> Returns (l2, km')))"

text \<open>
  Modelled from the spec: the type \<open>notifier\<close> and \<open>newNotifier\<close> are not in the source
  files; section 4.2 describes a notifier as exposing the handle of its current generation.
\<close>

record notifier =
  nf_cur :: chan

text \<open>
  Modelled from the spec: the functions passed as \<open>SingletonFunc\<close> are built by the HTTP
  handlers, which are not in the source files; by section 4.4 a mutator appends writes to
  the engine's current batch and then returns an error or nil.
\<close>

record SingletonFunc =
  mut_writes :: "DBWrite list"
  mut_err :: "error option"

text \<open>
  The struct \<open>Store\<close>. \<open>done\<close> is \<open>done_chan\<close> and \<open>b\<close> is \<open>b_batch\<close>; \<open>mu\<close> is the
  atomicity of the steps. The Go \<open>int\<close> counters are unbounded integers here: they
  count goroutines in flight.
\<close>

record Store =
  db :: pebble
  kmu :: "kmutex list"
  nf :: "notifier list"
  done_chan :: chan
  b_batch :: batch
  count :: int
  stopped :: bool
  pending :: int

definition mCount :: nat where
  "mCount = 100"

text \<open>\<open>hash/fnv\<close>, \<open>New64a\<close>, \<open>Write\<close> and \<open>Sum64\<close>: 64-bit FNV-1a.\<close>

definition offset64 :: uint64 where
  "offset64 = 14695981039346656037"

definition prime64 :: uint64 where
  "prime64 = 1099511628211"

fun fnv_write :: "uint64 \<Rightarrow> bytes \<Rightarrow> uint64" where
  "fnv_write h [] = h"
| "fnv_write h (c # cs) = fnv_write ((h XOR ucast c) * prime64) cs"

definition fnv64a :: "bytes \<Rightarrow> uint64" where
  "fnv64a key = fnv_write offset64 key"

text \<open>The index \<open>kid%mCount\<close> of the shard.\<close>

definition shard :: "uint64 \<Rightarrow> nat" where
  "shard kid = unat (kid mod word_of_nat mCount)"

definition notifier_of :: "Store \<Rightarrow> bytes \<Rightarrow> notifier" where
  "notifier_of p key = nf p ! shard (fnv64a key)"

section \<open>Goroutines\<close>

text \<open>
  The program points of a goroutine running \<open>Singleton\<close>:
  \<open>Enter\<close> before line 161; \<open>AtLock\<close> at the call of \<open>Lock\<close> (line 144) or woken in its loop;
  \<open>InWait\<close> parked in \<open>c.Wait()\<close> (line 217); \<open>InF ws\<close> inside \<open>f()\<close> with the writes \<open>ws\<close>
  still to append; \<open>AtUnlock r\<close> at the deferred \<open>Unlock\<close> with the result of \<open>f\<close>;
  \<open>AtSnapshot\<close> before line 182; \<open>AtRecv ch\<close> at \<open><-done\<close> (line 185); \<open>AtDefer r\<close> at the
  deferred decrement of \<open>pending\<close>; \<open>Returned r\<close> after the return.
\<close>

datatype upc =
  Enter | AtLock | InWait | InF "DBWrite list" | AtUnlock "error option"
  | AtSnapshot | AtRecv chan | AtDefer "error option" | Returned "error option"

record uthread =
  u_key :: bytes
  u_f :: SingletonFunc
  u_pc :: upc

text \<open>The local variables of \<open>Flush\<close> after its critical section.\<close>

record flocals =
  l_count :: int
  l_done :: chan
  l_pending :: int
  l_b :: batch

text \<open>
  The program points of the goroutine running \<open>FlushLoop\<close>: \<open>Select\<close> at the \<open>select\<close>;
  \<open>DrainCall\<close> at the call of \<open>Flush\<close> in the inner loop; \<open>Rotated\<close> in \<open>Flush\<close> after
  \<open>p.mu.Unlock()\<close>; \<open>Committed\<close> in \<open>Flush\<close> before \<open>close(done)\<close>; \<open>Sleeping d\<close> in
  \<open>time.Sleep(d)\<close>, a duration in nanoseconds; \<open>Exited\<close> after \<open>return nil\<close>.
\<close>

datatype lmode = Running | Draining

datatype fpc =
  Select | DrainCall | Rotated lmode flocals | Committed lmode flocals | Sleeping int | Exited

text \<open>
  The inputs of a step of the flush goroutine: whether \<open>ctx.Done()\<close> is closed, and the
  failures of the two pebble calls.
\<close>

record env =
  ctx_done :: bool
  log_fault :: "error option"
  commit_fault :: "error option"

text \<open>
  The whole process: the store, the set of closed channels, the number of channels made
  so far (a channel is its allocation number), the goroutines, and the value of an
  unrecovered panic.
\<close>

record world =
  store :: Store
  closed_chans :: "chan set"
  nchan :: nat
  upds :: "uthread list"
  floop :: fpc
  panicked :: "error option"

definition NewStore :: "pebble \<Rightarrow> notifier \<Rightarrow> chan \<Rightarrow> Store" where
  "NewStore d newNotifier ch =
     \<lparr>db = d, kmu = replicate mCount newLocker, nf = replicate mCount newNotifier,
      done_chan = ch, b_batch = NewBatch d, count = 0, stopped = False, pending = 0\<rparr>"

definition new_thread :: "bytes \<times> SingletonFunc \<Rightarrow> uthread" where
  "new_thread c = \<lparr>u_key = fst c, u_f = snd c, u_pc = Enter\<rparr>"

definition init :: "pebble \<Rightarrow> notifier \<Rightarrow> (bytes \<times> SingletonFunc) list \<Rightarrow> world" where
  "init d newNotifier calls =
     \<lparr>store = NewStore d newNotifier 0, closed_chans = {}, nchan = 1,
      upds = map new_thread calls, floop = Select, panicked = None\<rparr>"

section \<open>Flush\<close>

definition Flush_rotate :: "world \<Rightarrow> flocals \<times> world" where
  "Flush_rotate w =
     (let p = store w in
      (\<lparr>l_count = count p, l_done = done_chan p, l_pending = pending p, l_b = b_batch p\<rparr>,
       w\<lparr>store := p\<lparr>count := 0, b_batch := NewBatch (db p), done_chan := nchan w\<rparr>,
         nchan := nchan w + 1\<rparr>))"

definition Flush_commit :: "env \<Rightarrow> flocals \<Rightarrow> world \<Rightarrow> error + (flocals \<times> world)" where
  "Flush_commit ev l w =
     (if l_count l > 0 then
        (case LogData (log_fault ev) [102] (l_b l) of
           Inl e \<Rightarrow> Inl e
         | Inr bt \<Rightarrow>
             (case Commit (commit_fault ev) bt (db (store w)) of
                Inl e \<Rightarrow> Inl e
              | Inr d \<Rightarrow> Inr (l\<lparr>l_b := bt\<rparr>, w\<lparr>store := (store w)\<lparr>db := d\<rparr>\<rparr>)))
      else Inr (l, w))"

definition close_chan :: "chan \<Rightarrow> world \<Rightarrow> error + world" where
  "close_chan ch w =
     (if ch \<in> closed_chans w then Inl ''close of closed channel''
      else Inr (w\<lparr>closed_chans := insert ch (closed_chans w)\<rparr>))"

text \<open>
  \<open>Flush\<close> run without another goroutine in between: \<open>Inl (e, w)\<close> is \<open>panic(e)\<close> in
  state \<open>w\<close>, \<open>Inr (n, w)\<close> the returned \<open>pending\<close> and the state after the return.
\<close>

definition Flush :: "env \<Rightarrow> world \<Rightarrow> (error \<times> world) + (int \<times> world)" where
  "Flush ev w =
     (case Flush_rotate w of
        (l, wa) \<Rightarrow>
          (case Flush_commit ev l wa of
             Inl e \<Rightarrow> Inl (e, wa\<lparr>panicked := Some e\<rparr>)
           | Inr (l2, w2) \<Rightarrow>
               (case close_chan (l_done l2) w2 of
                  Inl e \<Rightarrow> Inl (e, w2\<lparr>panicked := Some e\<rparr>)
                | Inr w3 \<Rightarrow> Inr (l_pending l2, w3))))"

section \<open>FlushLoop\<close>

text \<open>\<open>time.Millisecond\<close>, a \<open>time.Duration\<close>: nanoseconds.\<close>

definition Millisecond :: int where
  "Millisecond = 1000000"

definition FlushLoop_next :: "lmode \<Rightarrow> int \<Rightarrow> fpc" where
  "FlushLoop_next m n =
     (case m of
        Running \<Rightarrow> (if n = 0 then Sleeping (Millisecond * 1) else Select)
      | Draining \<Rightarrow> (if n = 0 then Exited else DrainCall))"

definition fl_step :: "env \<Rightarrow> world \<Rightarrow> world option" where
  "fl_step ev w =
     (case floop w of
        Select \<Rightarrow>
          (if ctx_done ev
           then Some (w\<lparr>store := (store w)\<lparr>stopped := True\<rparr>, floop := DrainCall\<rparr>)
           else (case Flush_rotate w of (l, w') \<Rightarrow> Some (w'\<lparr>floop := Rotated Running l\<rparr>)))
      | DrainCall \<Rightarrow>
          (case Flush_rotate w of (l, w') \<Rightarrow> Some (w'\<lparr>floop := Rotated Draining l\<rparr>))
      | Rotated m l \<Rightarrow>
          (case Flush_commit ev l w of
             Inl e \<Rightarrow> Some (w\<lparr>panicked := Some e\<rparr>)
           | Inr (l', w') \<Rightarrow> Some (w'\<lparr>floop := Committed m l'\<rparr>))
      | Committed m l \<Rightarrow>
          (case close_chan (l_done l) w of
             Inl e \<Rightarrow> Some (w\<lparr>panicked := Some e\<rparr>)
           | Inr w' \<Rightarrow> Some (w'\<lparr>floop := FlushLoop_next m (l_pending l)\<rparr>))
      | Sleeping d \<Rightarrow> Some (w\<lparr>floop := Select\<rparr>)
      | Exited \<Rightarrow> None)"

section \<open>Singleton\<close>

text \<open>The first critical section of \<open>Singleton\<close>, lines 161 to 168.\<close>

definition Singleton_enter :: "Store \<Rightarrow> error option \<times> Store" where
  "Singleton_enter p =
     (if stopped p then (Some ''DB stopped'', p)
      else (None, p\<lparr>pending := pending p + 1, count := count p + 1\<rparr>))"

text \<open>Where \<open>Singleton\<close> goes once \<open>singletonUpdate\<close> has returned \<open>r\<close>, lines 176 to 179.\<close>

definition after_update :: "error option \<Rightarrow> upc" where
  "after_update r = (case r of Some e \<Rightarrow> AtDefer (Some e) | None \<Rightarrow> AtSnapshot)"

definition set_pc :: "nat \<Rightarrow> upc \<Rightarrow> world \<Rightarrow> world" where
  "set_pc t c w = w\<lparr>upds := (upds w)[t := (upds w ! t)\<lparr>u_pc := c\<rparr>]\<rparr>"

text \<open>
  \<open>p.kmu[kid%mCount].Lock(kid)\<close>, one pass. An index out of range is a runtime panic.
\<close>

definition lock_step :: "nat \<Rightarrow> world \<Rightarrow> world" where
  "lock_step t w =
     (let th = upds w ! t; p = store w; kid = fnv64a (u_key th); i = shard kid in
      if i < length (kmu p) then
        (case Lock t kid (kmu p ! i) of
           (got, km) \<Rightarrow>
             set_pc t (if got then InF (mut_writes (u_f th)) else InWait)
               (w\<lparr>store := p\<lparr>kmu := (kmu p)[i := km]\<rparr>\<rparr>))
      else w\<lparr>panicked := Some ''index out of range''\<rparr>)"

definition unlock_step :: "nat \<Rightarrow> error option \<Rightarrow> world \<Rightarrow> world" where
  "unlock_step t r w =
     (let th = upds w ! t; p = store w; kid = fnv64a (u_key th); i = shard kid in
      if i < length (kmu p) then
        set_pc t (after_update r) (w\<lparr>store := p\<lparr>kmu := (kmu p)[i := Unlock kid (kmu p ! i)]\<rparr>\<rparr>)
      else w\<lparr>panicked := Some ''index out of range''\<rparr>)"

definition upd_step :: "nat \<Rightarrow> world \<Rightarrow> world option" where
  "upd_step t w =
     (let th = upds w ! t; p = store w in
      case u_pc th of
        Enter \<Rightarrow>
          (case Singleton_enter p of
             (Some e, p') \<Rightarrow> Some (set_pc t (Returned (Some e)) (w\<lparr>store := p'\<rparr>))
           | (None, p') \<Rightarrow>
               Some (set_pc t (if length (u_key th) > 0 then AtLock
                               else InF (mut_writes (u_f th))) (w\<lparr>store := p'\<rparr>)))
      | AtLock \<Rightarrow> Some (lock_step t w)
      | InWait \<Rightarrow>
          (if shard (fnv64a (u_key th)) < length (kmu p)
              \<and> t \<in> km_c (kmu p ! shard (fnv64a (u_key th)))
           then None else Some (lock_step t w))
      | InF ws \<Rightarrow>
          (case ws of
             [] \<Rightarrow>
               Some (set_pc t (if length (u_key th) > 0 then AtUnlock (mut_err (u_f th))
                               else after_update (mut_err (u_f th))) w)
           | x # xs \<Rightarrow>
               Some (set_pc t (InF xs) (w\<lparr>store := p\<lparr>b_batch := b_batch p @ [Put x]\<rparr>\<rparr>)))
      | AtUnlock r \<Rightarrow> Some (unlock_step t r w)
      | AtSnapshot \<Rightarrow> Some (set_pc t (AtRecv (done_chan p)) w)
      | AtRecv ch \<Rightarrow> (if ch \<in> closed_chans w then Some (set_pc t (AtDefer None) w) else None)
      | AtDefer r \<Rightarrow> Some (set_pc t (Returned r) (w\<lparr>store := p\<lparr>pending := pending p - 1\<rparr>\<rparr>))
      | Returned r \<Rightarrow> None)"

section \<open>Interleavings\<close>

text \<open>
  A schedule is a list of actions: \<open>U t\<close> lets caller \<open>t\<close> take its next step, \<open>F ev\<close> the
  flush goroutine. A step that is not enabled (a blocked or finished goroutine, or any
  goroutine after a panic) is \<open>None\<close>.
\<close>

datatype action = U nat | F env

definition step :: "action \<Rightarrow> world \<Rightarrow> world option" where
  "step a w =
     (if panicked w \<noteq> None then None
      else (case a of
              U t \<Rightarrow> (if t < length (upds w) then upd_step t w else None)
            | F ev \<Rightarrow> fl_step ev w))"

fun exec :: "action list \<Rightarrow> world \<Rightarrow> world option" where
  "exec [] w = Some w"
| "exec (a # as) w = (case step a w of None \<Rightarrow> None | Some w' \<Rightarrow> exec as w')"

section \<open>Who holds a key\<close>

text \<open>
  A caller holds the lock of its key from the return of \<open>Lock\<close> to the deferred \<open>Unlock\<close>:
  at these program points, when its key is not empty.
\<close>

definition holding :: "upc \<Rightarrow> bool" where
  "holding c = (case c of InF ws \<Rightarrow> True | AtUnlock r \<Rightarrow> True | _ \<Rightarrow> False)"

definition kid_of :: "uthread \<Rightarrow> uint64" where
  "kid_of th = fnv64a (u_key th)"

definition holder :: "uthread \<Rightarrow> bool" where
  "holder th = (length (u_key th) > 0 \<and> holding (u_pc th))"

text \<open>The program points inside \<open>Lock\<close> and at \<open>Unlock\<close>, which a caller with an empty key skips.\<close>

definition lock_pc :: "upc \<Rightarrow> bool" where
  "lock_pc c = (case c of AtLock \<Rightarrow> True | InWait \<Rightarrow> True | AtUnlock r \<Rightarrow> True | _ \<Rightarrow> False)"

definition wf_thread :: "uthread \<Rightarrow> bool" where
  "wf_thread th = (lock_pc (u_pc th) \<longrightarrow> length (u_key th) > 0)"

definition linv :: "kmutex list \<Rightarrow> uthread list \<Rightarrow> bool" where
  "linv ks us =
     (length ks = mCount
      \<and> (\<forall>t < length us. wf_thread (us ! t))
      \<and> (\<forall>t < length us. holder (us ! t) \<longrightarrow>
             locked (ks ! shard (kid_of (us ! t))) (kid_of (us ! t)))
      \<and> (\<forall>t < length us. \<forall>t' < length us.
             holder (us ! t) \<and> holder (us ! t') \<and> kid_of (us ! t) = kid_of (us ! t')
             \<longrightarrow> t = t'))"

text \<open>
  Channels: the current generation is open and allocated, every closed channel is
  allocated, and the generation that a running \<open>Flush\<close> took is open and is not the current one.
\<close>

definition flush_done :: "fpc \<Rightarrow> chan option" where
  "flush_done c =
     (case c of Rotated m l \<Rightarrow> Some (l_done l) | Committed m l \<Rightarrow> Some (l_done l) | _ \<Rightarrow> None)"

definition cinv :: "world \<Rightarrow> bool" where
  "cinv w =
     (done_chan (store w) < nchan w
      \<and> done_chan (store w) \<notin> closed_chans w
      \<and> (\<forall>c \<in> closed_chans w. c < nchan w)
      \<and> (case flush_done (floop w) of
            None \<Rightarrow> True
          | Some c \<Rightarrow> c \<notin> closed_chans w \<and> c < nchan w \<and> c \<noteq> done_chan (store w)))"

definition draining :: "fpc \<Rightarrow> bool" where
  "draining c =
     (case c of
        DrainCall \<Rightarrow> True
      | Rotated m l \<Rightarrow> m = Draining
      | Committed m l \<Rightarrow> m = Draining
      | Exited \<Rightarrow> True
      | _ \<Rightarrow> False)"

section \<open>Example runs\<close>

definition write1 :: DBWrite where
  "write1 = \<lparr>Key = [1], Value = [2]\<rparr>"

definition ok_env :: env where
  "ok_env = \<lparr>ctx_done = False, log_fault = None, commit_fault = None\<rparr>"

definition stop_env :: env where
  "stop_env = \<lparr>ctx_done = True, log_fault = None, commit_fault = None\<rparr>"

text \<open>One caller with key \<open>[1]\<close> whose mutator appends \<open>write1\<close> and returns nil.\<close>

definition race_init :: world where
  "race_init = init \<lparr>synced = []\<rparr> \<lparr>nf_cur = 0\<rparr> [([1], \<lparr>mut_writes = [write1], mut_err = None\<rparr>)]"

text \<open>
  The caller passes its first critical section; a whole \<open>Flush\<close> runs; the caller takes its
  lock, runs its mutator, unlocks, reads \<open>p.done\<close>; a second whole \<open>Flush\<close> runs; the caller
  receives from the closed channel and returns.
\<close>

definition race_sched :: "action list" where
  "race_sched =
     [U 0, F ok_env, F ok_env, F ok_env, U 0, U 0, U 0, U 0, U 0,
      F ok_env, F ok_env, F ok_env, U 0, U 0]"

text \<open>Two callers with the same key.\<close>

definition two_calls :: world where
  "two_calls = init \<lparr>synced = []\<rparr> \<lparr>nf_cur = 0\<rparr>
     [([1], \<lparr>mut_writes = [write1], mut_err = None\<rparr>), ([1], \<lparr>mut_writes = [], mut_err = None\<rparr>)]"

text \<open>Failing pebble calls.\<close>

definition log_bad_env :: env where
  "log_bad_env = \<lparr>ctx_done = False, log_fault = Some ''log'', commit_fault = None\<rparr>"

definition commit_bad_env :: env where
  "commit_bad_env = \<lparr>ctx_done = False, log_fault = None, commit_fault = Some ''commit''\<rparr>"


text \<open>The caller of \<open>race_init\<close> writes after a whole \<open>Flush\<close> has run.\<close>

definition late_sched :: "action list" where
  "late_sched = [U 0, F ok_env, F ok_env, F ok_env, U 0, U 0]"

text \<open>
  Two callers whose keys fall into different shards, in a store whose notifiers expose the
  handle 7; each caller runs up to its receive from \<open>done\<close>.
\<close>

definition nf_calls :: world where
  "nf_calls = init \<lparr>synced = []\<rparr> \<lparr>nf_cur = 7\<rparr>
     [([1], \<lparr>mut_writes = [], mut_err = None\<rparr>), ([2], \<lparr>mut_writes = [], mut_err = None\<rparr>)]"

definition nf_sched :: "action list" where
  "nf_sched = [U 0, U 0, U 0, U 0, U 0, U 1, U 1, U 1, U 1, U 1]"

text \<open>
  One caller whose mutator appends \<open>write1\<close> and fails. A whole \<open>Flush\<close> runs after the first
  critical section of the caller; the caller then locks, writes, fails, unlocks and
  returns; two more whole calls of \<open>Flush\<close> follow.
\<close>

definition err_init :: world where
  "err_init = init \<lparr>synced = []\<rparr> \<lparr>nf_cur = 0\<rparr>
     [([1], \<lparr>mut_writes = [write1], mut_err = Some ''boom''\<rparr>)]"

definition err_sched :: "action list" where
  "err_sched =
     [U 0, F ok_env, F ok_env, F ok_env, U 0, U 0, U 0, U 0, U 0,
      F ok_env, F ok_env, F ok_env, F ok_env, F ok_env, F ok_env, F ok_env]"

section \<open>Invariants of the key locks\<close>

lemma shard_less: "shard kid < mCount"
  by (simp add: shard_def mCount_def unat_mod)


lemma exec_invariant:
  assumes "P w" and "\<And>a v v'. P v \<Longrightarrow> step a v = Some v' \<Longrightarrow> P v'" and "exec as w = Some w'"
  shows "P w'"
  using assms(1,3)
proof (induction as arbitrary: w)
  case Nil
  then show ?case by simp
next
  case (Cons a as)
  then show ?case by (auto split: option.splits intro: assms(2))
qed

lemma km_s_upd:
  "length ks = mCount \<Longrightarrow>
   km_s (ks[i := km] ! shard k) = (if i = shard k then km_s km else km_s (ks ! shard k))"
  by (simp add: nth_list_update shard_less)

lemma linvI:
  assumes "length ks = mCount"
    and "\<And>t. t < length us \<Longrightarrow> wf_thread (us ! t)"
    and "\<And>t. t < length us \<Longrightarrow> holder (us ! t) \<Longrightarrow>
           kid_of (us ! t) \<in> km_s (ks ! shard (kid_of (us ! t)))"
    and "\<And>t t'. t < length us \<Longrightarrow> t' < length us \<Longrightarrow> holder (us ! t) \<Longrightarrow> holder (us ! t')
           \<Longrightarrow> kid_of (us ! t) = kid_of (us ! t') \<Longrightarrow> t = t'"
  shows "linv ks us"
  using assms unfolding linv_def locked_def by blast

lemma linv_len: "linv ks us \<Longrightarrow> length ks = mCount"
  by (simp add: linv_def)

lemma linv_wf: "linv ks us \<Longrightarrow> t < length us \<Longrightarrow> wf_thread (us ! t)"
  by (simp add: linv_def)

lemma linv_held:
  "linv ks us \<Longrightarrow> t < length us \<Longrightarrow> holder (us ! t) \<Longrightarrow>
   kid_of (us ! t) \<in> km_s (ks ! shard (kid_of (us ! t)))"
  by (simp add: linv_def locked_def)

lemma linv_excl:
  "linv ks us \<Longrightarrow> t < length us \<Longrightarrow> t' < length us \<Longrightarrow> holder (us ! t) \<Longrightarrow> holder (us ! t')
   \<Longrightarrow> kid_of (us ! t) = kid_of (us ! t') \<Longrightarrow> t = t'"
  unfolding linv_def by blast

lemma linv_pc:
  assumes inv: "linv ks us" and t: "t < length us" and key: "u_key th = u_key (us ! t)"
    and h: "holder th \<Longrightarrow> holder (us ! t)" and wf: "wf_thread th"
  shows "linv ks (us[t := th])"
proof (rule linvI)
  show "length ks = mCount" using inv by (rule linv_len)
next
  fix a assume "a < length (us[t := th])"
  then show "wf_thread (us[t := th] ! a)"
    using linv_wf [OF inv, of a] wf t by (cases "a = t") simp_all
next
  fix a assume a: "a < length (us[t := th])" and ha: "holder (us[t := th] ! a)"
  show "kid_of (us[t := th] ! a) \<in> km_s (ks ! shard (kid_of (us[t := th] ! a)))"
  proof (cases "a = t")
    case True
    then have "holder (us ! t)" using ha t h by simp
    from linv_held [OF inv t this] show ?thesis using True t key by (simp add: kid_of_def)
  next
    case False
    then show ?thesis using linv_held [OF inv, of a] a ha by simp
  qed
next
  fix a c
  assume a: "a < length (us[t := th])" and c: "c < length (us[t := th])"
    and ha: "holder (us[t := th] ! a)" and hc: "holder (us[t := th] ! c)"
    and eq: "kid_of (us[t := th] ! a) = kid_of (us[t := th] ! c)"
  have nth: "\<And>x. x < length us \<Longrightarrow> kid_of (us[t := th] ! x) = kid_of (us ! x)"
    using key t by (simp add: nth_list_update kid_of_def)
  have hold: "\<And>x. x < length us \<Longrightarrow> holder (us[t := th] ! x) \<Longrightarrow> holder (us ! x)"
    using h t by (simp add: nth_list_update split: if_splits)
  show "a = c"
    using linv_excl [OF inv, of a c] a c hold [of a] hold [of c] ha hc eq nth [of a] nth [of c]
    by simp
qed

lemma linv_park:
  assumes inv: "linv ks us" and km: "km_s km = km_s (ks ! i)"
  shows "linv (ks[i := km]) us"
proof -
  have len: "length ks = mCount" using inv by (rule linv_len)
  have same: "\<And>k. km_s (ks[i := km] ! shard k) = km_s (ks ! shard k)"
    using km by (simp add: km_s_upd [OF len])
  show ?thesis
  proof (rule linvI)
    show "length (ks[i := km]) = mCount" using len by simp
  next
    fix t assume "t < length us"
    then show "wf_thread (us ! t)" using inv by (rule linv_wf [rotated])
  next
    fix t assume "t < length us" "holder (us ! t)"
    then show "kid_of (us ! t) \<in> km_s (ks[i := km] ! shard (kid_of (us ! t)))"
      using linv_held [OF inv] same by simp
  next
    fix t t'
    assume "t < length us" "t' < length us" "holder (us ! t)" "holder (us ! t')"
      "kid_of (us ! t) = kid_of (us ! t')"
    then show "t = t'" using linv_excl [OF inv] by blast
  qed
qed

lemma linv_acquire:
  assumes inv: "linv ks us" and t: "t < length us" and key: "u_key th = u_key (us ! t)"
    and ne: "length (u_key th) > 0"
    and free: "\<not> locked (ks ! shard (kid_of th)) (kid_of th)"
    and km: "km_s km = insert (kid_of th) (km_s (ks ! shard (kid_of th)))"
  shows "linv (ks[shard (kid_of th) := km]) (us[t := th])"
proof -
  let ?ks = "ks[shard (kid_of th) := km]" and ?us = "us[t := th]"
  have len: "length ks = mCount" using inv by (rule linv_len)
  have kid: "kid_of th = kid_of (us ! t)" using key by (simp add: kid_of_def)
  have grow: "\<And>k. km_s (ks ! shard k) \<subseteq> km_s (?ks ! shard k)"
    using km by (auto simp: km_s_upd [OF len])
  have mine: "kid_of th \<in> km_s (?ks ! shard (kid_of th))"
    using km by (simp add: km_s_upd [OF len])
  have other: "\<not> holder (us ! a) \<or> kid_of (us ! a) \<noteq> kid_of th" if "a < length us" for a
    using linv_held [OF inv that] free by (auto simp: locked_def)
  show ?thesis
  proof (rule linvI)
    show "length ?ks = mCount" using len by simp
  next
    fix a assume "a < length ?us"
    then show "wf_thread (?us ! a)"
      using linv_wf [OF inv, of a] ne t by (cases "a = t") (simp_all add: wf_thread_def)
  next
    fix a assume a: "a < length ?us" and ha: "holder (?us ! a)"
    show "kid_of (?us ! a) \<in> km_s (?ks ! shard (kid_of (?us ! a)))"
    proof (cases "a = t")
      case True
      then show ?thesis using mine t by simp
    next
      case False
      then show ?thesis using linv_held [OF inv, of a] a ha grow by auto
    qed
  next
    fix a c
    assume a: "a < length ?us" and c: "c < length ?us"
      and ha: "holder (?us ! a)" and hc: "holder (?us ! c)"
      and eq: "kid_of (?us ! a) = kid_of (?us ! c)"
    show "a = c"
    proof (cases "a = t")
      case True
      show ?thesis
      proof (cases "c = t")
        case True
        with \<open>a = t\<close> show ?thesis by simp
      next
        case False
        then show ?thesis using other [of c] c hc eq True t by simp
      qed
    next
      case False
      show ?thesis
      proof (cases "c = t")
        case True
        then show ?thesis using other [of a] a ha eq False t by simp
      next
        case cf: False
        then show ?thesis using linv_excl [OF inv, of a c] a c ha hc eq False by simp
      qed
    qed
  qed
qed

lemma linv_release:
  assumes inv: "linv ks us" and t: "t < length us" and key: "u_key th = u_key (us ! t)"
    and h: "holder (us ! t)" and nh: "\<not> holding (u_pc th)" and wf: "wf_thread th"
    and km: "km_s km = km_s (ks ! shard (kid_of th)) - {kid_of th}"
  shows "linv (ks[shard (kid_of th) := km]) (us[t := th])"
proof -
  let ?ks = "ks[shard (kid_of th) := km]" and ?us = "us[t := th]"
  have len: "length ks = mCount" using inv by (rule linv_len)
  have kid: "kid_of th = kid_of (us ! t)" using key by (simp add: kid_of_def)
  have keep: "\<And>k. k \<noteq> kid_of th \<Longrightarrow> k \<in> km_s (ks ! shard k) \<Longrightarrow> k \<in> km_s (?ks ! shard k)"
    using km by (auto simp: km_s_upd [OF len])
  have other: "kid_of (us ! a) \<noteq> kid_of th" if "a < length us" "a \<noteq> t" "holder (us ! a)" for a
    using linv_excl [OF inv that(1) t that(3) h] that(2) kid by auto
  have nhold: "\<not> holder th" using nh by (simp add: holder_def)
  show ?thesis
  proof (rule linvI)
    show "length ?ks = mCount" using len by simp
  next
    fix a assume "a < length ?us"
    then show "wf_thread (?us ! a)"
      using linv_wf [OF inv, of a] wf t by (cases "a = t") simp_all
  next
    fix a assume a: "a < length ?us" and ha: "holder (?us ! a)"
    show "kid_of (?us ! a) \<in> km_s (?ks ! shard (kid_of (?us ! a)))"
    proof (cases "a = t")
      case True
      then show ?thesis using ha nhold t by simp
    next
      case False
      then show ?thesis
        using linv_held [OF inv, of a] other [of a] a ha keep [of "kid_of (us ! a)"] by simp
    qed
  next
    fix a c
    assume a: "a < length ?us" and c: "c < length ?us"
      and ha: "holder (?us ! a)" and hc: "holder (?us ! c)"
      and eq: "kid_of (?us ! a) = kid_of (?us ! c)"
    have "a \<noteq> t" using ha nhold t by auto
    moreover have "c \<noteq> t" using hc nhold t by auto
    ultimately show "a = c" using linv_excl [OF inv, of a c] a c ha hc eq by simp
  qed
qed

lemma set_pc_simps:
  "upds (set_pc t c w) = (upds w)[t := (upds w ! t)\<lparr>u_pc := c\<rparr>]"
  "store (set_pc t c w) = store w"
  "closed_chans (set_pc t c w) = closed_chans w"
  "nchan (set_pc t c w) = nchan w"
  "floop (set_pc t c w) = floop w"
  "panicked (set_pc t c w) = panicked w"
  by (simp_all add: set_pc_def)

lemma lock_step_linv:
  assumes inv: "linv (kmu (store w)) (upds w)" and t: "t < length (upds w)"
    and ne: "length (u_key (upds w ! t)) > 0"
    and nh: "\<not> holder (upds w ! t)"
  shows "linv (kmu (store (lock_step t w))) (upds (lock_step t w))"
proof -
  let ?th = "upds w ! t"
  let ?kid = "fnv64a (u_key ?th)"
  let ?ks = "kmu (store w)"
  have len: "length ?ks = mCount" using inv by (rule linv_len)
  have i: "shard ?kid < length ?ks" using len shard_less by simp
  show ?thesis
  proof (cases "locked (?ks ! shard ?kid) ?kid")
    case True
    have "linv (?ks[shard ?kid := (?ks ! shard ?kid)\<lparr>km_c := insert t (km_c (?ks ! shard ?kid))\<rparr>])
            ((upds w)[t := ?th\<lparr>u_pc := InWait\<rparr>])"
      by (rule linv_pc [OF linv_park [OF inv]])
         (use t ne in \<open>simp_all add: holder_def holding_def wf_thread_def\<close>)
    then show ?thesis using True i
      by (simp add: lock_step_def Let_def Lock_def set_pc_simps)
  next
    case False
    let ?th' = "?th\<lparr>u_pc := InF (mut_writes (u_f ?th))\<rparr>"
    have "linv (?ks[shard (kid_of ?th') := (?ks ! shard ?kid)\<lparr>km_s := insert ?kid (km_s (?ks ! shard ?kid))\<rparr>])
            ((upds w)[t := ?th'])"
      by (rule linv_acquire [OF inv t]) (use ne False in \<open>simp_all add: kid_of_def\<close>)
    then show ?thesis using False i
      by (simp add: lock_step_def Let_def Lock_def set_pc_simps kid_of_def)
  qed
qed

lemma unlock_step_linv:
  assumes inv: "linv (kmu (store w)) (upds w)" and t: "t < length (upds w)"
    and pc: "u_pc (upds w ! t) = AtUnlock r0"
  shows "linv (kmu (store (unlock_step t r w))) (upds (unlock_step t r w))"
proof -
  let ?th = "upds w ! t"
  let ?kid = "fnv64a (u_key ?th)"
  let ?ks = "kmu (store w)"
  let ?th' = "?th\<lparr>u_pc := after_update r\<rparr>"
  have len: "length ?ks = mCount" using inv by (rule linv_len)
  have i: "shard ?kid < length ?ks" using len shard_less by simp
  have ne: "length (u_key ?th) > 0"
    using linv_wf [OF inv t] pc by (simp add: wf_thread_def lock_pc_def)
  have h: "holder ?th" using ne pc by (simp add: holder_def holding_def)
  have nh: "\<not> holding (after_update r)"
    by (simp add: after_update_def holding_def split: option.splits)
  have wf: "wf_thread ?th'"
    by (simp add: wf_thread_def after_update_def lock_pc_def split: option.splits)
  have "linv (?ks[shard (kid_of ?th') := Unlock ?kid (?ks ! shard ?kid)]) ((upds w)[t := ?th'])"
    by (rule linv_release [OF inv t _ h _ wf]) (use nh in \<open>simp_all add: kid_of_def Unlock_def\<close>)
  then show ?thesis using i
    by (simp add: unlock_step_def Let_def set_pc_simps kid_of_def)
qed

lemma upd_step_linv:
  assumes inv: "linv (kmu (store w)) (upds w)" and t: "t < length (upds w)"
    and st: "upd_step t w = Some w'"
  shows "linv (kmu (store w')) (upds w')"
proof -
  let ?th = "upds w ! t"
  have wf: "wf_thread ?th" using inv t by (rule linv_wf)
  have pcstep: "linv (kmu (store w)) ((upds w)[t := ?th\<lparr>u_pc := c\<rparr>])"
    if "holder (?th\<lparr>u_pc := c\<rparr>) \<Longrightarrow> holder ?th" "wf_thread (?th\<lparr>u_pc := c\<rparr>)" for c
    by (rule linv_pc [OF inv t _ that]) simp
  show ?thesis
  proof (cases "u_pc ?th")
    case Enter
    have r1: "linv (kmu (store w)) ((upds w)[t := ?th\<lparr>u_pc := Returned e\<rparr>])" for e
      by (rule pcstep) (auto simp: holder_def holding_def wf_thread_def lock_pc_def)
    have r2: "linv (kmu (store w))
        ((upds w)[t := ?th\<lparr>u_pc := if length (u_key ?th) > 0 then AtLock else InF ws\<rparr>])" for ws
      by (rule pcstep) (auto simp: holder_def holding_def wf_thread_def lock_pc_def)
    show ?thesis using st Enter r1 r2
      by (auto simp: upd_step_def Let_def Singleton_enter_def set_pc_simps split: if_splits)
  next
    case AtLock
    have "length (u_key ?th) > 0" using wf AtLock by (simp add: wf_thread_def lock_pc_def)
    moreover have "\<not> holder ?th" using AtLock by (simp add: holder_def holding_def)
    ultimately show ?thesis using st AtLock lock_step_linv [OF inv t]
      by (auto simp: upd_step_def Let_def)
  next
    case InWait
    have "length (u_key ?th) > 0" using wf InWait by (simp add: wf_thread_def lock_pc_def)
    moreover have "\<not> holder ?th" using InWait by (simp add: holder_def holding_def)
    ultimately show ?thesis using st InWait lock_step_linv [OF inv t]
      by (auto simp: upd_step_def Let_def split: if_splits)
  next
    case (InF ws)
    have r1: "linv (kmu (store w)) ((upds w)[t := ?th\<lparr>u_pc := InF xs\<rparr>])" for xs
      by (rule pcstep) (use InF in \<open>auto simp: holder_def holding_def wf_thread_def lock_pc_def\<close>)
    have r2: "linv (kmu (store w))
        ((upds w)[t := ?th\<lparr>u_pc := if length (u_key ?th) > 0 then AtUnlock r
                                     else after_update r\<rparr>])" for r
      by (rule pcstep)
         (use InF in \<open>auto simp: holder_def holding_def wf_thread_def lock_pc_def
            after_update_def split: option.splits\<close>)
    show ?thesis using st InF r1 r2
      by (auto simp: upd_step_def Let_def set_pc_simps split: list.splits)
  next
    case (AtUnlock r)
    then show ?thesis using st unlock_step_linv [OF inv t AtUnlock]
      by (auto simp: upd_step_def Let_def)
  next
    case AtSnapshot
    have r1: "linv (kmu (store w)) ((upds w)[t := ?th\<lparr>u_pc := AtRecv c\<rparr>])" for c
      by (rule pcstep) (auto simp: holder_def holding_def wf_thread_def lock_pc_def)
    show ?thesis using st AtSnapshot r1
      by (auto simp: upd_step_def Let_def set_pc_simps)
  next
    case (AtRecv c)
    have "linv (kmu (store w)) ((upds w)[t := ?th\<lparr>u_pc := AtDefer None\<rparr>])"
      by (rule pcstep) (auto simp: holder_def holding_def wf_thread_def lock_pc_def)
    then show ?thesis using st AtRecv
      by (auto simp: upd_step_def Let_def set_pc_simps split: if_splits)
  next
    case (AtDefer r)
    have "linv (kmu (store w)) ((upds w)[t := ?th\<lparr>u_pc := Returned r\<rparr>])"
      by (rule pcstep) (auto simp: holder_def holding_def wf_thread_def lock_pc_def)
    then show ?thesis using st AtDefer
      by (auto simp: upd_step_def Let_def set_pc_simps)
  next
    case (Returned r)
    then show ?thesis using st by (simp add: upd_step_def)
  qed
qed

lemma Flush_rotate_frame:
  "Flush_rotate w = (l, w') \<Longrightarrow>
   upds w' = upds w \<and> kmu (store w') = kmu (store w) \<and> nf (store w') = nf (store w)
   \<and> db (store w') = db (store w) \<and> stopped (store w') = stopped (store w)
   \<and> pending (store w') = pending (store w) \<and> closed_chans w' = closed_chans w
   \<and> floop w' = floop w \<and> panicked w' = panicked w"
  by (auto simp: Flush_rotate_def Let_def)

lemma Flush_commit_frame:
  "Flush_commit ev l w = Inr (l', w') \<Longrightarrow>
   upds w' = upds w \<and> kmu (store w') = kmu (store w) \<and> nf (store w') = nf (store w)
   \<and> stopped (store w') = stopped (store w) \<and> pending (store w') = pending (store w)
   \<and> count (store w') = count (store w) \<and> b_batch (store w') = b_batch (store w)
   \<and> done_chan (store w') = done_chan (store w)
   \<and> closed_chans w' = closed_chans w \<and> nchan w' = nchan w
   \<and> floop w' = floop w \<and> panicked w' = panicked w
   \<and> l_done l' = l_done l \<and> l_pending l' = l_pending l \<and> l_count l' = l_count l"
  by (auto simp: Flush_commit_def LogData_def Commit_def split: if_splits option.splits sum.splits)

lemma close_chan_frame:
  "close_chan c w = Inr w' \<Longrightarrow> w' = w\<lparr>closed_chans := insert c (closed_chans w)\<rparr> \<and> c \<notin> closed_chans w"
  by (auto simp: close_chan_def split: if_splits)

lemma fl_step_frame:
  assumes "fl_step ev w = Some w'"
  shows "upds w' = upds w \<and> kmu (store w') = kmu (store w) \<and> nf (store w') = nf (store w)"
  using assms
  by (auto simp: fl_step_def split: fpc.splits if_splits prod.splits sum.splits
      dest!: Flush_rotate_frame Flush_commit_frame close_chan_frame)

lemma step_linv:
  assumes "linv (kmu (store w)) (upds w)" "step a w = Some w'"
  shows "linv (kmu (store w')) (upds w')"
  using assms upd_step_linv fl_step_frame
  by (auto simp: step_def split: if_splits action.splits)

lemma init_linv: "linv (kmu (store (init d n calls))) (upds (init d n calls))"
  by (rule linvI)
     (simp_all add: init_def NewStore_def new_thread_def wf_thread_def lock_pc_def
        holder_def holding_def)

lemma reach_linv:
  "exec as (init d n calls) = Some w \<Longrightarrow> linv (kmu (store w)) (upds w)"
  by (rule exec_invariant [where P = "\<lambda>v. linv (kmu (store v)) (upds v)"])
     (auto intro: init_linv step_linv)

section \<open>Invariants of the channels and of the shutdown\<close>

lemma lock_step_frame:
  "done_chan (store (lock_step t w)) = done_chan (store w)
   \<and> closed_chans (lock_step t w) = closed_chans w \<and> nchan (lock_step t w) = nchan w
   \<and> floop (lock_step t w) = floop w \<and> db (store (lock_step t w)) = db (store w)
   \<and> nf (store (lock_step t w)) = nf (store w)
   \<and> stopped (store (lock_step t w)) = stopped (store w)
   \<and> pending (store (lock_step t w)) = pending (store w)
   \<and> count (store (lock_step t w)) = count (store w)
   \<and> b_batch (store (lock_step t w)) = b_batch (store w)"
  by (simp add: lock_step_def Let_def set_pc_simps split: prod.splits)

lemma unlock_step_frame:
  "done_chan (store (unlock_step t r w)) = done_chan (store w)
   \<and> closed_chans (unlock_step t r w) = closed_chans w \<and> nchan (unlock_step t r w) = nchan w
   \<and> floop (unlock_step t r w) = floop w \<and> db (store (unlock_step t r w)) = db (store w)
   \<and> nf (store (unlock_step t r w)) = nf (store w)
   \<and> stopped (store (unlock_step t r w)) = stopped (store w)
   \<and> pending (store (unlock_step t r w)) = pending (store w)
   \<and> count (store (unlock_step t r w)) = count (store w)
   \<and> b_batch (store (unlock_step t r w)) = b_batch (store w)"
  by (simp add: unlock_step_def Let_def set_pc_simps)

lemma upd_step_frame:
  assumes "upd_step t w = Some w'"
  shows "done_chan (store w') = done_chan (store w)
   \<and> closed_chans w' = closed_chans w \<and> nchan w' = nchan w
   \<and> floop w' = floop w \<and> db (store w') = db (store w)
   \<and> nf (store w') = nf (store w)
   \<and> stopped (store w') = stopped (store w)"
proof (cases "u_pc (upds w ! t)")
  case AtLock
  then show ?thesis using assms lock_step_frame [of t w] by (auto simp: upd_step_def Let_def)
next
  case InWait
  then show ?thesis using assms lock_step_frame [of t w]
    by (auto simp: upd_step_def Let_def split: if_splits)
next
  case (AtUnlock r)
  then show ?thesis using assms unlock_step_frame [of t r w] by (auto simp: upd_step_def Let_def)
qed (use assms in \<open>auto simp: upd_step_def Let_def Singleton_enter_def set_pc_simps
       split: if_splits list.splits\<close>)

lemma upd_step_cinv:
  assumes "cinv w" "upd_step t w = Some w'"
  shows "cinv w'"
  using assms(1) upd_step_frame [OF assms(2)] by (simp add: cinv_def split: option.splits)

lemma cinv_rotate:
  assumes inv: "cinv w" and rot: "Flush_rotate w = (l, wr)" and c: "flush_done c = Some (l_done l)"
  shows "cinv (wr\<lparr>floop := c\<rparr>)"
proof -
  have l: "l_done l = done_chan (store w)"
    and wr: "done_chan (store wr) = nchan w" "nchan wr = nchan w + 1"
      "closed_chans wr = closed_chans w"
    using rot by (auto simp: Flush_rotate_def Let_def)
  have a: "done_chan (store w) < nchan w" "done_chan (store w) \<notin> closed_chans w"
    and b: "\<And>x. x \<in> closed_chans w \<Longrightarrow> x < nchan w"
    using inv by (auto simp: cinv_def)
  have fresh: "nchan w \<notin> closed_chans w" using b by blast
  have lt: "\<And>x. x \<in> closed_chans w \<Longrightarrow> x < nchan w + 1" by (rule trans_less_add1 [OF b])
  show ?thesis
    unfolding cinv_def using a fresh lt l wr c by simp
qed

lemma cinv_commit:
  assumes inv: "cinv w" and pc: "floop w = Rotated m l"
    and cm: "Flush_commit ev l w = Inr (l', w')"
  shows "cinv (w'\<lparr>floop := Committed m l'\<rparr>)"
proof -
  note f = Flush_commit_frame [OF cm]
  have "flush_done (floop w) = Some (l_done l)" using pc by (simp add: flush_done_def)
  then show ?thesis using inv f by (simp add: cinv_def flush_done_def)
qed

lemma cinv_close:
  assumes inv: "cinv w" and pc: "floop w = Committed m l"
    and cl: "close_chan (l_done l) w = Inr w'" and c: "flush_done c = None"
  shows "cinv (w'\<lparr>floop := c\<rparr>)"
proof -
  note f = close_chan_frame [OF cl]
  have fd: "flush_done (floop w) = Some (l_done l)" using pc by (simp add: flush_done_def)
  have a: "done_chan (store w) < nchan w" "done_chan (store w) \<notin> closed_chans w"
    and b: "\<And>x. x \<in> closed_chans w \<Longrightarrow> x < nchan w"
    and d: "l_done l < nchan w" "l_done l \<noteq> done_chan (store w)"
    using inv fd by (auto simp: cinv_def)
  have w': "closed_chans w' = insert (l_done l) (closed_chans w)" "nchan w' = nchan w"
    "store w' = store w"
    using f by simp_all
  show ?thesis
    unfolding cinv_def using a b d w' c by auto
qed

lemma cinv_panic: "cinv w \<Longrightarrow> cinv (w\<lparr>panicked := e\<rparr>)"
  by (simp add: cinv_def split: option.splits)

lemma cinv_stop:
  "cinv w \<Longrightarrow> floop w = Select \<Longrightarrow> cinv (w\<lparr>store := (store w)\<lparr>stopped := True\<rparr>, floop := DrainCall\<rparr>)"
  by (simp add: cinv_def flush_done_def)

lemma cinv_wake: "cinv w \<Longrightarrow> floop w = Sleeping d \<Longrightarrow> cinv (w\<lparr>floop := Select\<rparr>)"
  by (simp add: cinv_def flush_done_def)

lemma flush_done_next: "flush_done (FlushLoop_next m k) = None"
  by (simp add: FlushLoop_next_def flush_done_def split: lmode.splits)

lemma fl_step_cinv:
  assumes inv: "cinv w" and st: "fl_step ev w = Some w'"
  shows "cinv w'"
proof (cases "floop w")
  case Select
  show ?thesis
  proof (cases "ctx_done ev")
    case True
    then have "w' = w\<lparr>store := (store w)\<lparr>stopped := True\<rparr>, floop := DrainCall\<rparr>"
      using st Select by (simp add: fl_step_def)
    then show ?thesis using cinv_stop [OF inv Select] by simp
  next
    case False
    obtain l wr where rot: "Flush_rotate w = (l, wr)" by (cases "Flush_rotate w")
    then have "w' = wr\<lparr>floop := Rotated Running l\<rparr>"
      using st Select False by (simp add: fl_step_def)
    then show ?thesis using cinv_rotate [OF inv rot, of "Rotated Running l"]
      by (simp add: flush_done_def)
  qed
next
  case DrainCall
  obtain l wr where rot: "Flush_rotate w = (l, wr)" by (cases "Flush_rotate w")
  then have "w' = wr\<lparr>floop := Rotated Draining l\<rparr>"
    using st DrainCall by (simp add: fl_step_def)
  then show ?thesis using cinv_rotate [OF inv rot, of "Rotated Draining l"]
    by (simp add: flush_done_def)
next
  case (Rotated m l)
  show ?thesis
  proof (cases "Flush_commit ev l w")
    case (Inl e)
    then have "w' = w\<lparr>panicked := Some e\<rparr>" using st Rotated by (simp add: fl_step_def)
    then show ?thesis using cinv_panic [OF inv] by simp
  next
    case (Inr r)
    obtain l' w2 where r: "r = (l', w2)" by (cases r)
    then have "w' = w2\<lparr>floop := Committed m l'\<rparr>" using st Rotated Inr by (simp add: fl_step_def)
    then show ?thesis using cinv_commit [OF inv Rotated] Inr r by simp
  qed
next
  case (Committed m l)
  show ?thesis
  proof (cases "close_chan (l_done l) w")
    case (Inl e)
    then have "w' = w\<lparr>panicked := Some e\<rparr>" using st Committed by (simp add: fl_step_def)
    then show ?thesis using cinv_panic [OF inv] by simp
  next
    case (Inr w2)
    then have "w' = w2\<lparr>floop := FlushLoop_next m (l_pending l)\<rparr>"
      using st Committed by (simp add: fl_step_def)
    then show ?thesis using cinv_close [OF inv Committed Inr flush_done_next] by simp
  qed
next
  case (Sleeping d)
  then have "w' = w\<lparr>floop := Select\<rparr>" using st by (simp add: fl_step_def)
  then show ?thesis using cinv_wake [OF inv Sleeping] by simp
next
  case Exited
  then show ?thesis using st by (simp add: fl_step_def)
qed

lemma step_cinv:
  assumes inv: "cinv w" and st: "step a w = Some w'"
  shows "cinv w'"
proof (cases a)
  case (U t)
  then have "upd_step t w = Some w'" using st by (simp add: step_def split: if_splits)
  then show ?thesis by (rule upd_step_cinv [OF inv])
next
  case (F ev)
  then have "fl_step ev w = Some w'" using st by (simp add: step_def split: if_splits)
  then show ?thesis by (rule fl_step_cinv [OF inv])
qed

lemma init_cinv: "cinv (init d n calls)"
  by (simp add: cinv_def init_def NewStore_def flush_done_def)

lemma reach_cinv: "exec as (init d n calls) = Some w \<Longrightarrow> cinv w"
  by (erule exec_invariant [where P = cinv, rotated 2]) (rule init_cinv, rule step_cinv)

lemma cinv_open: "cinv w \<Longrightarrow> done_chan (store w) \<notin> closed_chans w"
  by (simp add: cinv_def)

lemma cinv_flush_open:
  "cinv w \<Longrightarrow> floop w = Committed m l \<Longrightarrow> l_done l \<notin> closed_chans w"
  by (simp add: cinv_def flush_done_def)

lemma draining_next: "draining (FlushLoop_next m k) \<Longrightarrow> m = Draining"
  by (simp add: FlushLoop_next_def draining_def split: lmode.splits if_splits)

lemma fl_step_dinv:
  assumes inv: "draining (floop w) \<longrightarrow> stopped (store w)" and st: "fl_step ev w = Some w'"
  shows "draining (floop w') \<longrightarrow> stopped (store w')"
proof (cases "floop w")
  case Select
  then show ?thesis using st
    by (auto simp: fl_step_def draining_def Flush_rotate_def Let_def split: if_splits)
next
  case DrainCall
  then show ?thesis using st inv
    by (auto simp: fl_step_def draining_def Flush_rotate_def Let_def)
next
  case (Rotated m l)
  show ?thesis
  proof (cases "Flush_commit ev l w")
    case (Inl e)
    then have "w' = w\<lparr>panicked := Some e\<rparr>" using st Rotated by (simp add: fl_step_def)
    then show ?thesis using inv by simp
  next
    case (Inr r)
    obtain l' v where r: "r = (l', v)" by (cases r)
    then have w': "w' = v\<lparr>floop := Committed m l'\<rparr>" using st Rotated Inr by (simp add: fl_step_def)
    have "stopped (store v) = stopped (store w)"
      using Flush_commit_frame [of ev l w l' v] Inr r by simp
    then show ?thesis using inv w' Rotated by (simp add: draining_def)
  qed
next
  case (Committed m l)
  show ?thesis
  proof (cases "close_chan (l_done l) w")
    case (Inl e)
    then have "w' = w\<lparr>panicked := Some e\<rparr>" using st Committed by (simp add: fl_step_def)
    then show ?thesis using inv by simp
  next
    case (Inr v)
    then have w': "w' = v\<lparr>floop := FlushLoop_next m (l_pending l)\<rparr>"
      using st Committed by (simp add: fl_step_def)
    have "store v = store w" using close_chan_frame [OF Inr] by simp
    then show ?thesis using inv w' Committed draining_next [of m "l_pending l"]
      by (auto simp: draining_def)
  qed
next
  case (Sleeping d)
  then show ?thesis using st by (auto simp: fl_step_def draining_def)
next
  case Exited
  then show ?thesis using st by (simp add: fl_step_def)
qed

lemma step_dinv:
  assumes inv: "draining (floop w) \<longrightarrow> stopped (store w)" and st: "step a w = Some w'"
  shows "draining (floop w') \<longrightarrow> stopped (store w')"
proof (cases a)
  case (U t)
  then have "upd_step t w = Some w'" using st by (simp add: step_def split: if_splits)
  from upd_step_frame [OF this] show ?thesis using inv by simp
next
  case (F ev)
  then have "fl_step ev w = Some w'" using st by (simp add: step_def split: if_splits)
  then show ?thesis by (rule fl_step_dinv [OF inv])
qed

lemma reach_dinv:
  "exec as (init d n calls) = Some w \<Longrightarrow> draining (floop w) \<longrightarrow> stopped (store w)"
  by (erule exec_invariant [where P = "\<lambda>v. draining (floop v) \<longrightarrow> stopped (store v)", rotated 2])
     (simp add: init_def draining_def, rule step_dinv)

lemma step_nf:
  assumes "step a w = Some w'"
  shows "nf (store w') = nf (store w) \<and> closed_chans w \<subseteq> closed_chans w'"
proof (cases a)
  case (U t)
  then have "upd_step t w = Some w'" using assms by (simp add: step_def split: if_splits)
  from upd_step_frame [OF this] show ?thesis by simp
next
  case (F ev)
  then have st: "fl_step ev w = Some w'" using assms by (simp add: step_def split: if_splits)
  have "closed_chans w \<subseteq> closed_chans w'"
    using st
    by (auto simp: fl_step_def split: fpc.splits if_splits prod.splits sum.splits
        dest!: Flush_rotate_frame Flush_commit_frame close_chan_frame)
  then show ?thesis using fl_step_frame [OF st] by simp
qed

section \<open>The keyed mutex\<close>

text \<open>
  C2. In every state that the store reaches from \<open>NewStore\<close>, two callers that hold a key
  with the same 64-bit hash are the same caller, and the hash of every holder is in the
  held set of its shard. \<open>Lock\<close> on a held key parks the caller on the condition and leaves
  the held set as it is; on a key that is not held it inserts the key and returns.
  \<open>Unlock\<close> removes the key and empties the wait list of the shard (broadcast).
\<close>

theorem kmutex_one_holder:
  assumes "exec as (init d n calls) = Some w"
  shows "(\<forall>t t'. t < length (upds w) \<and> t' < length (upds w)
            \<and> holder (upds w ! t) \<and> holder (upds w ! t')
            \<and> kid_of (upds w ! t) = kid_of (upds w ! t') \<longrightarrow> t = t')
    \<and> (\<forall>t. t < length (upds w) \<and> holder (upds w ! t) \<longrightarrow>
          locked (kmu (store w) ! shard (kid_of (upds w ! t))) (kid_of (upds w ! t)))
    \<and> (\<forall>t key km. locked km key \<longrightarrow>
          fst (Lock t key km) = False \<and> km_s (snd (Lock t key km)) = km_s km
          \<and> t \<in> km_c (snd (Lock t key km)))
    \<and> (\<forall>t key km. \<not> locked km key \<longrightarrow>
          fst (Lock t key km) = True \<and> km_s (snd (Lock t key km)) = insert key (km_s km))
    \<and> (\<forall>key km. km_s (Unlock key km) = km_s km - {key} \<and> km_c (Unlock key km) = {})"
proof -
  have inv: "linv (kmu (store w)) (upds w)" using assms by (rule reach_linv)
  show ?thesis
    using linv_excl [OF inv] linv_held [OF inv]
    by (auto simp: locked_def Lock_def Unlock_def)
qed

theorem kmutex_one_holder_witness:
  "exec [U 0, U 1, U 0, U 1] two_calls \<noteq> None
   \<and> holder (upds (the (exec [U 0, U 1, U 0, U 1] two_calls)) ! 0)
   \<and> kid_of (upds (the (exec [U 0, U 1, U 0, U 1] two_calls)) ! 0)
       = kid_of (upds (the (exec [U 0, U 1, U 0, U 1] two_calls)) ! 1)
   \<and> \<not> holder (upds (the (exec [U 0, U 1, U 0, U 1] two_calls)) ! 1)
   \<and> u_pc (upds (the (exec [U 0, U 1, U 0, U 1] two_calls)) ! 1) = InWait"
proof -
  define v where "v = the (exec [U 0, U 1, U 0, U 1] two_calls)"
  have ne: "exec [U 0, U 1, U 0, U 1] two_calls \<noteq> None" by code_simp
  then have h: "exec [U 0, U 1, U 0, U 1] (init \<lparr>synced = []\<rparr> \<lparr>nf_cur = 0\<rparr>
     [([1], \<lparr>mut_writes = [write1], mut_err = None\<rparr>), ([1], \<lparr>mut_writes = [], mut_err = None\<rparr>)])
       = Some v"
    unfolding v_def two_calls_def by (rule option.collapse [symmetric])
  have len: "length (upds v) = 2" unfolding v_def by code_simp
  have h0: "holder (upds v ! 0)" unfolding v_def by code_simp
  have k: "kid_of (upds v ! 0) = kid_of (upds v ! 1)" unfolding v_def by code_simp
  have pc: "u_pc (upds v ! 1) = InWait" unfolding v_def by code_simp
  have "0 < length (upds v) \<and> 1 < length (upds v) \<and> holder (upds v ! 0) \<and> holder (upds v ! 1)
      \<and> kid_of (upds v ! 0) = kid_of (upds v ! 1) \<longrightarrow> (0::nat) = 1"
    by (rule kmutex_one_holder [OF h, THEN conjunct1, THEN spec, THEN spec])
  then have "\<not> holder (upds v ! 1)"
    using len h0 k by simp
  then show ?thesis using ne h0 k pc unfolding v_def by blast
qed

text \<open>
  C10. For every state of a kmutex and every key, held or not: \<open>Unlock\<close> removes the key
  from the held set and nothing else, and it empties the wait list (the broadcast wakes
  every waiter of the shard). On a key that is not held the held set is as before, so
  only the wake-up remains. The method never panics: when \<open>km.l\<close> is free it returns, with
  \<open>km.l\<close> free again; when \<open>km.l\<close> is held it waits for it.
\<close>

theorem Unlock_unheld_key:
  "km_s (Unlock key km) = km_s km - {key}
   \<and> km_c (Unlock key km) = {}
   \<and> (\<forall>k. locked (Unlock key km) k = (locked km k \<and> k \<noteq> key))
   \<and> (\<not> locked km key \<longrightarrow>
         Unlock key km = km\<lparr>km_c := {}\<rparr> \<and> km_s (Unlock key km) = km_s km)
   \<and> Unlock_method l key km = (if l then Waits else Returns (False, Unlock key km))
   \<and> (\<forall>e. Unlock_method l key km \<noteq> Panics e)"
  by (auto simp: Unlock_def locked_def Unlock_method_def mutex_Lock_def mutex_Unlock_def)

theorem Unlock_unheld_key_witness:
  "\<not> locked \<lparr>km_s = {5}, km_c = {3}\<rparr> 7
   \<and> Unlock 7 \<lparr>km_s = {5}, km_c = {3}\<rparr> = \<lparr>km_s = {5}, km_c = {}\<rparr>
   \<and> locked (Unlock 7 \<lparr>km_s = {5}, km_c = {3}\<rparr>) 5
   \<and> km_s (Unlock 5 \<lparr>km_s = {5}, km_c = {3}\<rparr>) = {}
   \<and> Unlock_method False 7 \<lparr>km_s = {5}, km_c = {3}\<rparr>
       = Returns (False, \<lparr>km_s = {5}, km_c = {}\<rparr>)"
proof -
  have h: "\<not> locked \<lparr>km_s = {5}, km_c = {3}\<rparr> 7" by (simp add: locked_def)
  have a: "Unlock 7 \<lparr>km_s = {5}, km_c = {3}\<rparr> = \<lparr>km_s = {5}, km_c = {}\<rparr>"
    using h Unlock_unheld_key [of 7 "\<lparr>km_s = {5}, km_c = {3}\<rparr>" False] by simp
  have b: "locked (Unlock 7 \<lparr>km_s = {5}, km_c = {3}\<rparr>) 5"
    using Unlock_unheld_key [of 7 "\<lparr>km_s = {5}, km_c = {3}\<rparr>" False] by (simp add: locked_def)
  have c: "km_s (Unlock 5 \<lparr>km_s = {5}, km_c = {3}\<rparr>) = {}"
    using Unlock_unheld_key [of 5 "\<lparr>km_s = {5}, km_c = {3}\<rparr>" False] by simp
  have d: "Unlock_method False 7 \<lparr>km_s = {5}, km_c = {3}\<rparr>
       = Returns (False, \<lparr>km_s = {5}, km_c = {}\<rparr>)"
    using a Unlock_unheld_key [of 7 "\<lparr>km_s = {5}, km_c = {3}\<rparr>" False] by simp
  show ?thesis using h a b c d by blast
qed

section \<open>The key lock around the mutator\<close>

lemma fnv64a_vectors:
  "fnv64a [] = 0xcbf29ce484222325" "fnv64a [97] = 0xaf63dc4c8601ec8c"
  "fnv64a [102, 111, 111, 98, 97, 114] = 0x85944171f73967e8"
  by (simp_all add: fnv64a_def offset64_def prime64_def)



lemma pc_set_pc: "t < length (upds w) \<Longrightarrow> u_pc (upds (set_pc t c w) ! t) = c"
  by (simp add: set_pc_def)





section \<open>Entering, failing and waiting in Singleton\<close>

text \<open>
  C5. A call of \<open>Singleton\<close> that enters while \<open>stopped\<close> is set returns the error
  \<open>DB stopped\<close> in its first step, and that step changes nothing but the program point
  of the caller: the counters, the key locks, the batch and the database are as before,
  and the mutator has not run.
\<close>

theorem Singleton_stopped:
  assumes "stopped (store w)" "panicked w = None" "t < length (upds w)"
    "u_pc (upds w ! t) = Enter"
  shows "Singleton_enter (store w) = (Some ''DB stopped'', store w)
    \<and> step (U t) w
        = Some (w\<lparr>upds := (upds w)[t := (upds w ! t)\<lparr>u_pc := Returned (Some ''DB stopped'')\<rparr>]\<rparr>)"
  using assms by (simp add: step_def upd_step_def Singleton_enter_def set_pc_def)

theorem Singleton_stopped_witness:
  "exec [F stop_env] two_calls \<noteq> None
   \<and> stopped (store (the (exec [F stop_env] two_calls)))
   \<and> map_option store (step (U 0) (the (exec [F stop_env] two_calls)))
       = Some (store (the (exec [F stop_env] two_calls)))
   \<and> map_option (\<lambda>w. u_pc (upds w ! 0)) (step (U 0) (the (exec [F stop_env] two_calls)))
       = Some (Returned (Some ''DB stopped''))"
proof -
  define v where "v = the (exec [F stop_env] two_calls)"
  have ne: "exec [F stop_env] two_calls \<noteq> None" by code_simp
  have st: "stopped (store v)" unfolding v_def by code_simp
  have pn: "panicked v = None" unfolding v_def by code_simp
  have len: "0 < length (upds v)" unfolding v_def by code_simp
  have pc: "u_pc (upds v ! 0) = Enter" unfolding v_def by code_simp
  have "map_option store (step (U 0) v) = Some (store v)
      \<and> map_option (\<lambda>w. u_pc (upds w ! 0)) (step (U 0) v) = Some (Returned (Some ''DB stopped''))"
    using Singleton_stopped [OF st pn len pc] len by simp
  then show ?thesis using ne st unfolding v_def by blast
qed

text \<open>
  C1. The schedule \<open>race_sched\<close>: the caller returns nil, the database holds the log marker
  of the first flush only, and the batch that held the write of the caller has been dropped.
\<close>

theorem Singleton_success_without_durability:
  "map_option (\<lambda>w. (u_pc (upds w ! 0), synced (db (store w)), b_batch (store w)))
     (exec race_sched race_init) = Some (Returned None, [Marker [102]], [])"
  by code_simp

text \<open>
  What a failing mutator leaves behind, in every state the store reaches: from the end of
  the mutator the caller unlocks its key, decrements \<open>pending\<close> once and returns the error
  without waiting on a channel; \<open>count\<close>, the batch and the database are as before.
\<close>

lemma Singleton_mutator_error:
  assumes "exec as (init d n calls) = Some w" "panicked w = None" "t < length (upds w)"
    "u_pc (upds w ! t) = InF []" "mut_err (u_f (upds w ! t)) = Some e"
    "length (u_key (upds w ! t)) > 0"
  shows "\<exists>w'. exec [U t, U t, U t] w = Some w'
     \<and> u_pc (upds w' ! t) = Returned (Some e)
     \<and> pending (store w') = pending (store w) - 1
     \<and> count (store w') = count (store w)
     \<and> b_batch (store w') = b_batch (store w)
     \<and> db (store w') = db (store w)
     \<and> \<not> locked (kmu (store w') ! shard (kid_of (upds w ! t))) (kid_of (upds w ! t))"
proof -
  have len: "length (kmu (store w)) = mCount"
    using assms(1) by (rule linv_len [OF reach_linv])
  have sh: "shard (fnv64a (u_key (upds w ! t))) < length (kmu (store w))"
    using len shard_less by simp
  show ?thesis using assms(2-6) sh
    by (simp add: step_def upd_step_def unlock_step_def set_pc_def after_update_def Let_def
        Unlock_def locked_def kid_of_def)
qed

text \<open>
  C6. The schedule \<open>err_sched\<close>: the mutator fails after one write, the caller returns the
  error of the mutator and \<open>pending\<close> is back to 0; the write is neither in the database nor
  in the batch after two more whole calls of \<open>Flush\<close>: the flush that took its batch read
  \<open>count = 0\<close> and dropped it.
\<close>

theorem Singleton_error_writes_dropped:
  "exec err_sched err_init \<noteq> None
   \<and> u_pc (upds (the (exec err_sched err_init)) ! 0) = Returned (Some ''boom'')
   \<and> synced (db (store (the (exec err_sched err_init)))) = [Marker [102]]
   \<and> b_batch (store (the (exec err_sched err_init))) = []
   \<and> pending (store (the (exec err_sched err_init))) = 0
   \<and> count (store (the (exec err_sched err_init))) = 0"
  by code_simp

text \<open>
  C8, as amended. A caller whose mutator returned nil reads the channel \<open>done\<close> of the store,
  whatever its key, and then waits on that channel: its receive is enabled when and only
  when that channel is closed. No step of any goroutine changes the notifiers, and a
  closed channel stays closed.
\<close>

theorem Singleton_waits_on_done:
  assumes "panicked w = None" "t < length (upds w)"
  shows "(u_pc (upds w ! t) = AtSnapshot \<longrightarrow>
           step (U t) w = Some (set_pc t (AtRecv (done_chan (store w))) w))
    \<and> (\<forall>ch. u_pc (upds w ! t) = AtRecv ch \<longrightarrow>
          step (U t) w = (if ch \<in> closed_chans w then Some (set_pc t (AtDefer None) w) else None))
    \<and> (\<forall>a w'. step a w = Some w' \<longrightarrow>
          nf (store w') = nf (store w) \<and> closed_chans w \<subseteq> closed_chans w')"
  using assms step_nf [of _ w]
  by (auto simp: step_def upd_step_def Let_def)

theorem Singleton_waits_on_done_witness:
  "exec [U 0, U 0, U 0, U 0] nf_calls \<noteq> None
   \<and> u_pc (upds (the (exec [U 0, U 0, U 0, U 0] nf_calls)) ! 0) = AtSnapshot
   \<and> step (U 0) (the (exec [U 0, U 0, U 0, U 0] nf_calls))
       = Some (set_pc 0 (AtRecv 0) (the (exec [U 0, U 0, U 0, U 0] nf_calls)))
   \<and> exec nf_sched nf_calls \<noteq> None
   \<and> u_pc (upds (the (exec nf_sched nf_calls)) ! 0) = AtRecv 0
   \<and> 0 \<notin> closed_chans (the (exec nf_sched nf_calls))
   \<and> step (U 0) (the (exec nf_sched nf_calls)) = None"
proof -
  define v where "v = the (exec [U 0, U 0, U 0, U 0] nf_calls)"
  define u where "u = the (exec nf_sched nf_calls)"
  have ne: "exec [U 0, U 0, U 0, U 0] nf_calls \<noteq> None" by code_simp
  have pn: "panicked v = None" unfolding v_def by code_simp
  have len: "0 < length (upds v)" unfolding v_def by code_simp
  have pc: "u_pc (upds v ! 0) = AtSnapshot" unfolding v_def by code_simp
  have dc: "done_chan (store v) = 0" unfolding v_def by code_simp
  have a: "step (U 0) v = Some (set_pc 0 (AtRecv 0) v)"
    using Singleton_waits_on_done [OF pn len, THEN conjunct1] pc dc by simp
  have ne2: "exec nf_sched nf_calls \<noteq> None" by code_simp
  have pn2: "panicked u = None" unfolding u_def by code_simp
  have len2: "0 < length (upds u)" unfolding u_def by code_simp
  have pc2: "u_pc (upds u ! 0) = AtRecv 0" unfolding u_def by code_simp
  have cl: "0 \<notin> closed_chans u" unfolding u_def by code_simp
  have b: "step (U 0) u = None"
    using Singleton_waits_on_done [OF pn2 len2, THEN conjunct2, THEN conjunct1, THEN spec, of 0]
      pc2 cl by simp
  show ?thesis using ne pc a ne2 pc2 cl b unfolding v_def u_def by blast
qed

text \<open>
  The claim as stated fails: in the run \<open>nf_sched\<close> the caller with key \<open>[1]\<close> waits on
  \<open>done\<close>, which is not the handle of the notifier of its shard, and the caller with key
  \<open>[2]\<close>, of another shard, waits on the very same channel.
\<close>

theorem Singleton_ignores_notifier:
  "exec nf_sched nf_calls \<noteq> None
   \<and> u_pc (upds (the (exec nf_sched nf_calls)) ! 0)
       = AtRecv (done_chan (store (the (exec nf_sched nf_calls))))
   \<and> u_pc (upds (the (exec nf_sched nf_calls)) ! 0)
       \<noteq> AtRecv (nf_cur (notifier_of (store (the (exec nf_sched nf_calls))) [1]))
   \<and> shard (fnv64a [1]) \<noteq> shard (fnv64a [2])
   \<and> u_pc (upds (the (exec nf_sched nf_calls)) ! 1)
       = u_pc (upds (the (exec nf_sched nf_calls)) ! 0)"
  by code_simp

section \<open>One call of Flush\<close>

text \<open>
  C3. In every state the store reaches, a \<open>Flush\<close> that reads \<open>count = 0\<close> returns the
  \<open>pending\<close> it read and changes the state in this way only: the batch is replaced by a
  fresh one, \<open>done\<close> by a fresh channel, and the channel that was \<open>done\<close> is closed. The
  database is not touched: between the rotation and the close, a \<open>Flush\<close> whose \<open>count\<close> is 0
  leaves every state as it is, also when other goroutines have run in between.
\<close>

theorem Flush_zero_count:
  assumes "exec as (init d n calls) = Some w" "count (store w) = 0"
  shows "Flush ev w =
      Inr (pending (store w),
           w\<lparr>store := (store w)\<lparr>count := 0, b_batch := [], done_chan := nchan w\<rparr>,
             nchan := nchan w + 1,
             closed_chans := insert (done_chan (store w)) (closed_chans w)\<rparr>)
    \<and> (\<forall>l v. l_count l = 0 \<longrightarrow> Flush_commit ev l v = Inr (l, v))"
proof -
  have "done_chan (store w) \<notin> closed_chans w"
    using assms(1) by (rule cinv_open [OF reach_cinv])
  then show ?thesis using assms(2)
    by (simp add: Flush_def Flush_rotate_def Flush_commit_def close_chan_def Let_def NewBatch_def)
qed

theorem Flush_zero_count_witness:
  "exec late_sched race_init \<noteq> None
   \<and> count (store (the (exec late_sched race_init))) = 0
   \<and> b_batch (store (the (exec late_sched race_init))) = [Put write1]
   \<and> db (store (the (exec late_sched race_init))) = \<lparr>synced = [Marker [102]]\<rparr>
   \<and> Flush ok_env (the (exec late_sched race_init)) =
      Inr (pending (store (the (exec late_sched race_init))),
           (the (exec late_sched race_init))
             \<lparr>store := (store (the (exec late_sched race_init)))
                \<lparr>count := 0, b_batch := [], done_chan := nchan (the (exec late_sched race_init))\<rparr>,
              nchan := nchan (the (exec late_sched race_init)) + 1,
              closed_chans := insert (done_chan (store (the (exec late_sched race_init))))
                 (closed_chans (the (exec late_sched race_init)))\<rparr>)"
proof -
  define v where "v = the (exec late_sched race_init)"
  have ne: "exec late_sched race_init \<noteq> None" by code_simp
  then have h: "exec late_sched
      (init \<lparr>synced = []\<rparr> \<lparr>nf_cur = 0\<rparr> [([1], \<lparr>mut_writes = [write1], mut_err = None\<rparr>)]) = Some v"
    unfolding v_def race_init_def by (rule option.collapse [symmetric])
  have c: "count (store v) = 0" unfolding v_def by code_simp
  have b: "b_batch (store v) = [Put write1]" unfolding v_def by code_simp
  have d: "db (store v) = \<lparr>synced = [Marker [102]]\<rparr>" unfolding v_def by code_simp
  note f = Flush_zero_count [OF h c, of ok_env, THEN conjunct1]
  show ?thesis using ne c b d f unfolding v_def by blast
qed

text \<open>
  C4. In every state the store reaches, a \<open>Flush\<close> that reads \<open>count > 0\<close>: when neither
  pebble call fails, the batch it took, followed by the log marker \<open>f\<close>, is appended to
  the database, then the channel is closed and \<open>pending\<close> returned; when \<open>LogData\<close> fails, or
  \<open>LogData\<close> succeeds and \<open>Commit\<close> fails, it panics with that error: nothing is returned,
  the channel is not closed, and no goroutine takes a step any more.
\<close>

theorem Flush_positive_count:
  assumes "exec as (init d n calls) = Some w" "count (store w) > 0"
  shows "(log_fault ev = None \<and> commit_fault ev = None \<longrightarrow>
       Flush ev w =
         Inr (pending (store w),
              w\<lparr>store := (store w)\<lparr>db := (db (store w))\<lparr>synced :=
                    synced (db (store w)) @ b_batch (store w) @ [Marker [102]]\<rparr>,
                  count := 0, b_batch := [], done_chan := nchan w\<rparr>,
                nchan := nchan w + 1,
                closed_chans := insert (done_chan (store w)) (closed_chans w)\<rparr>))
    \<and> (\<forall>e. log_fault ev = Some e \<or> (log_fault ev = None \<and> commit_fault ev = Some e) \<longrightarrow>
         (\<exists>w'. Flush ev w = Inl (e, w') \<and> panicked w' = Some e
            \<and> closed_chans w' = closed_chans w
            \<and> (\<forall>a. step a w' = None)))"
proof -
  have op: "done_chan (store w) \<notin> closed_chans w"
    using assms(1) by (rule cinv_open [OF reach_cinv])
  have ok: "log_fault ev = None \<and> commit_fault ev = None \<longrightarrow>
       Flush ev w =
         Inr (pending (store w),
              w\<lparr>store := (store w)\<lparr>db := (db (store w))\<lparr>synced :=
                    synced (db (store w)) @ b_batch (store w) @ [Marker [102]]\<rparr>,
                  count := 0, b_batch := [], done_chan := nchan w\<rparr>,
                nchan := nchan w + 1,
                closed_chans := insert (done_chan (store w)) (closed_chans w)\<rparr>)"
    using op assms(2)
    by (simp add: Flush_def Flush_rotate_def Flush_commit_def close_chan_def Let_def
        NewBatch_def LogData_def Commit_def)
  have bad: "\<exists>w'. Flush ev w = Inl (e, w') \<and> panicked w' = Some e
            \<and> closed_chans w' = closed_chans w
            \<and> (\<forall>a. step a w' = None)"
    if "log_fault ev = Some e \<or> (log_fault ev = None \<and> commit_fault ev = Some e)" for e
    using that assms(2)
    by (auto simp: Flush_def Flush_rotate_def Flush_commit_def Let_def
        NewBatch_def LogData_def Commit_def step_def)
  show ?thesis using ok bad by blast
qed

theorem Flush_positive_count_witness:
  "exec [U 0, U 0, U 0] race_init \<noteq> None
   \<and> count (store (the (exec [U 0, U 0, U 0] race_init))) > 0
   \<and> b_batch (store (the (exec [U 0, U 0, U 0] race_init))) = [Put write1]
   \<and> (\<exists>w'. Flush ok_env (the (exec [U 0, U 0, U 0] race_init)) = Inr (1, w')
         \<and> synced (db (store w')) = [Put write1, Marker [102]]
         \<and> 0 \<in> closed_chans w')
   \<and> (\<exists>w'. Flush log_bad_env (the (exec [U 0, U 0, U 0] race_init)) = Inl (''log'', w')
         \<and> panicked w' = Some ''log'' \<and> 0 \<notin> closed_chans w')
   \<and> (\<exists>w'. Flush commit_bad_env (the (exec [U 0, U 0, U 0] race_init)) = Inl (''commit'', w')
         \<and> panicked w' = Some ''commit'' \<and> 0 \<notin> closed_chans w')"
proof -
  define v where "v = the (exec [U 0, U 0, U 0] race_init)"
  have ne: "exec [U 0, U 0, U 0] race_init \<noteq> None" by code_simp
  then have h: "exec [U 0, U 0, U 0]
      (init \<lparr>synced = []\<rparr> \<lparr>nf_cur = 0\<rparr> [([1], \<lparr>mut_writes = [write1], mut_err = None\<rparr>)]) = Some v"
    unfolding v_def race_init_def by (rule option.collapse [symmetric])
  have c: "count (store v) > 0" unfolding v_def by code_simp
  have b: "b_batch (store v) = [Put write1]" unfolding v_def by code_simp
  have p: "pending (store v) = 1" unfolding v_def by code_simp
  have s: "synced (db (store v)) = []" unfolding v_def by code_simp
  have dc: "done_chan (store v) = 0" unfolding v_def by code_simp
  have cl: "closed_chans v = {}" unfolding v_def by code_simp
  have ok: "\<exists>w'. Flush ok_env v = Inr (1, w') \<and> synced (db (store w')) = [Put write1, Marker [102]]
         \<and> 0 \<in> closed_chans w'"
    using Flush_positive_count [OF h c, of ok_env, THEN conjunct1] b p s dc
    by (simp add: ok_env_def)
  have l: "\<exists>w'. Flush log_bad_env v = Inl (''log'', w')
         \<and> panicked w' = Some ''log'' \<and> 0 \<notin> closed_chans w'"
    using Flush_positive_count [OF h c, of log_bad_env, THEN conjunct2, THEN spec, of "''log''"] cl
    by (auto simp: log_bad_env_def)
  have m: "\<exists>w'. Flush commit_bad_env v = Inl (''commit'', w')
         \<and> panicked w' = Some ''commit'' \<and> 0 \<notin> closed_chans w'"
    using Flush_positive_count [OF h c, of commit_bad_env, THEN conjunct2, THEN spec, of "''commit''"] cl
    by (auto simp: commit_bad_env_def)
  show ?thesis using ne c b ok l m unfolding v_def by blast
qed

section \<open>The flush loop\<close>

lemma drain_exits:
  assumes "panicked w = None" "floop w = Select" "pending (store w) = 0"
    "done_chan (store w) \<notin> closed_chans w"
  shows "\<exists>w'. exec [F stop_env, F stop_env, F stop_env, F stop_env] w = Some w'
     \<and> floop w' = Exited \<and> stopped (store w') \<and> panicked w' = None"
  using assms
  by (simp add: step_def fl_step_def Flush_rotate_def Flush_commit_def close_chan_def
      LogData_def Commit_def FlushLoop_next_def stop_env_def Let_def NewBatch_def)

text \<open>
  C9. In every state the store reaches, the next step of the flush goroutine: at the
  \<open>select\<close>, when \<open>ctx.Done()\<close> is closed it sets \<open>stopped\<close> and goes to the inner loop,
  otherwise it starts a \<open>Flush\<close>; in \<open>Flush\<close> it commits, then closes the channel; after a
  \<open>Flush\<close> of the outer loop that returned 0 it sleeps for one millisecond and comes back
  to the \<open>select\<close>, after any other result it comes back at once; after a \<open>Flush\<close> of the
  inner loop that returned 0 it returns nil, after any other result it calls \<open>Flush\<close>
  again; once returned it takes no step. Whenever it is in the inner loop or has
  returned, \<open>stopped\<close> is set. With \<open>pending = 0\<close> and no other goroutine running, the
  shutdown signal at the \<open>select\<close> leads to the return in four steps.
\<close>

theorem FlushLoop_control:
  assumes "exec as (init d n calls) = Some w" "panicked w = None"
  shows "(floop w = Select \<longrightarrow>
           step (F ev) w =
             Some (if ctx_done ev
                   then w\<lparr>store := (store w)\<lparr>stopped := True\<rparr>, floop := DrainCall\<rparr>
                   else (snd (Flush_rotate w))\<lparr>floop := Rotated Running (fst (Flush_rotate w))\<rparr>))
    \<and> (floop w = DrainCall \<longrightarrow>
          step (F ev) w =
            Some ((snd (Flush_rotate w))\<lparr>floop := Rotated Draining (fst (Flush_rotate w))\<rparr>))
    \<and> (\<forall>m l. floop w = Rotated m l \<longrightarrow>
          step (F ev) w =
            Some (case Flush_commit ev l w of
                    Inl e \<Rightarrow> w\<lparr>panicked := Some e\<rparr>
                  | Inr (l', w') \<Rightarrow> w'\<lparr>floop := Committed m l'\<rparr>))
    \<and> (\<forall>m l. floop w = Committed m l \<longrightarrow>
          step (F ev) w =
            Some (w\<lparr>closed_chans := insert (l_done l) (closed_chans w),
                    floop := (case m of
                                Running \<Rightarrow> if l_pending l = 0 then Sleeping 1000000 else Select
                              | Draining \<Rightarrow> if l_pending l = 0 then Exited else DrainCall)\<rparr>))
    \<and> (\<forall>d. floop w = Sleeping d \<longrightarrow> step (F ev) w = Some (w\<lparr>floop := Select\<rparr>))
    \<and> (floop w = Exited \<longrightarrow> step (F ev) w = None)
    \<and> (draining (floop w) \<longrightarrow> stopped (store w))
    \<and> (floop w = Select \<and> pending (store w) = 0 \<longrightarrow>
          (\<exists>w'. exec [F stop_env, F stop_env, F stop_env, F stop_env] w = Some w'
             \<and> floop w' = Exited \<and> stopped (store w') \<and> panicked w' = None))"
proof -
  have ci: "cinv w" using assms(1) by (rule reach_cinv)
  have a: "floop w = Select \<Longrightarrow>
           step (F ev) w =
             Some (if ctx_done ev
                   then w\<lparr>store := (store w)\<lparr>stopped := True\<rparr>, floop := DrainCall\<rparr>
                   else (snd (Flush_rotate w))\<lparr>floop := Rotated Running (fst (Flush_rotate w))\<rparr>)"
    using assms(2) by (simp add: step_def fl_step_def split: prod.splits)
  have b: "floop w = DrainCall \<Longrightarrow>
          step (F ev) w =
            Some ((snd (Flush_rotate w))\<lparr>floop := Rotated Draining (fst (Flush_rotate w))\<rparr>)"
    using assms(2) by (simp add: step_def fl_step_def split: prod.splits)
  have c: "floop w = Rotated m l \<Longrightarrow>
          step (F ev) w =
            Some (case Flush_commit ev l w of
                    Inl e \<Rightarrow> w\<lparr>panicked := Some e\<rparr>
                  | Inr (l', w') \<Rightarrow> w'\<lparr>floop := Committed m l'\<rparr>)" for m l
    using assms(2) by (simp add: step_def fl_step_def split: prod.splits sum.splits)
  have e: "floop w = Committed m l \<Longrightarrow>
          step (F ev) w =
            Some (w\<lparr>closed_chans := insert (l_done l) (closed_chans w),
                    floop := (case m of
                                Running \<Rightarrow> if l_pending l = 0 then Sleeping 1000000 else Select
                              | Draining \<Rightarrow> if l_pending l = 0 then Exited else DrainCall)\<rparr>)" for m l
    using assms(2) cinv_flush_open [OF ci, of m l]
    by (simp add: step_def fl_step_def close_chan_def FlushLoop_next_def Millisecond_def
        split: lmode.splits)
  have f: "floop w = Sleeping d \<Longrightarrow> step (F ev) w = Some (w\<lparr>floop := Select\<rparr>)" for d
    using assms(2) by (simp add: step_def fl_step_def)
  have g: "floop w = Exited \<Longrightarrow> step (F ev) w = None"
    using assms(2) by (simp add: step_def fl_step_def)
  have h: "draining (floop w) \<longrightarrow> stopped (store w)" using assms(1) by (rule reach_dinv)
  have i: "floop w = Select \<and> pending (store w) = 0 \<Longrightarrow>
          (\<exists>w'. exec [F stop_env, F stop_env, F stop_env, F stop_env] w = Some w'
             \<and> floop w' = Exited \<and> stopped (store w') \<and> panicked w' = None)"
    using drain_exits [OF assms(2) _ _ cinv_open [OF ci]] by blast
  show ?thesis using a b c e f g h i by blast
qed

theorem FlushLoop_control_witness:
  "floop two_calls = Select \<and> pending (store two_calls) = 0
   \<and> step (F ok_env) two_calls
       = Some ((snd (Flush_rotate two_calls))\<lparr>floop := Rotated Running (fst (Flush_rotate two_calls))\<rparr>)
   \<and> (\<exists>w'. exec [F stop_env, F stop_env, F stop_env, F stop_env] two_calls = Some w'
         \<and> floop w' = Exited \<and> stopped (store w') \<and> panicked w' = None)
   \<and> exec [F stop_env] two_calls \<noteq> None
   \<and> draining (floop (the (exec [F stop_env] two_calls)))
   \<and> stopped (store (the (exec [F stop_env] two_calls)))
   \<and> map_option floop (exec [F ok_env, F ok_env, F ok_env] two_calls) = Some (Sleeping 1000000)"
proof -
  have sl: "map_option floop (exec [F ok_env, F ok_env, F ok_env] two_calls)
      = Some (Sleeping 1000000)"
    by code_simp
  define v where "v = the (exec [F stop_env] two_calls)"
  have h0: "exec [] (init \<lparr>synced = []\<rparr> \<lparr>nf_cur = 0\<rparr>
     [([1], \<lparr>mut_writes = [write1], mut_err = None\<rparr>), ([1], \<lparr>mut_writes = [], mut_err = None\<rparr>)])
       = Some two_calls"
    by (simp add: two_calls_def)
  have pn0: "panicked two_calls = None" by code_simp
  have sel: "floop two_calls = Select" by code_simp
  have p0: "pending (store two_calls) = 0" by code_simp
  have nd: "\<not> ctx_done ok_env" by (simp add: ok_env_def)
  have a: "step (F ok_env) two_calls
       = Some ((snd (Flush_rotate two_calls))\<lparr>floop := Rotated Running (fst (Flush_rotate two_calls))\<rparr>)"
    using FlushLoop_control [OF h0 pn0, of ok_env, THEN conjunct1] sel nd by simp
  have b: "\<exists>w'. exec [F stop_env, F stop_env, F stop_env, F stop_env] two_calls = Some w'
         \<and> floop w' = Exited \<and> stopped (store w') \<and> panicked w' = None"
    using FlushLoop_control [OF h0 pn0, of ok_env] sel p0 by blast
  have ne: "exec [F stop_env] two_calls \<noteq> None" by code_simp
  then have h: "exec [F stop_env] (init \<lparr>synced = []\<rparr> \<lparr>nf_cur = 0\<rparr>
     [([1], \<lparr>mut_writes = [write1], mut_err = None\<rparr>), ([1], \<lparr>mut_writes = [], mut_err = None\<rparr>)])
       = Some v"
    unfolding v_def two_calls_def by (rule option.collapse [symmetric])
  have pn: "panicked v = None" unfolding v_def by code_simp
  have dr: "draining (floop v)" unfolding v_def by code_simp
  have st: "stopped (store v)"
    using FlushLoop_control [OF h pn, of ok_env] dr by blast
  show ?thesis using sel p0 a b ne dr st sl unfolding v_def by blast
qed

end
